theory Spec2Isabelle
  imports Main
begin

section \<open>Data model of the diff viewer\<close>

text \<open>
  The source is the React component \<open>DiffViewer\<close> together with the helper
  \<open>computeDiff\<close>. JavaScript strings are modelled as \<^typ>\<open>string\<close>; the only
  character the diff inspects is the line feed, everything else is compared for
  equality only. The value \<open>undefined\<close> that an out-of-range array read produces is
  \<^const>\<open>None\<close>. A \<open>lineNumber\<close> is always an array index plus one, a natural number;
  the \<open>line\<close> of an annotation is supplied by the caller and is an integer of either
  sign.
\<close>

datatype DiffType = Unchanged | Removed | Added

record DiffLine =
  type :: DiffType
  lineNumber :: nat
  content :: string

datatype AnnotationType = Info | Warning | Error | Insight

record Annotation =
  line :: int
  message :: string
  ann_type :: AnnotationType

section \<open>JavaScript primitives used by the source\<close>

text \<open>\<open>s.split("\n")\<close>: the pieces between line feeds; an empty string has one (empty) piece.\<close>

fun split_from :: "string \<Rightarrow> string \<Rightarrow> string list" where
  "split_from cur [] = [cur]"
| "split_from cur (c # cs) =
     (if c = CHR 0x0A then cur # split_from [] cs else split_from (cur @ [c]) cs)"

definition split_newline :: "string \<Rightarrow> string list" where
  "split_newline s = split_from [] s"

text \<open>\<open>xs[i]\<close>: \<open>undefined\<close> outside the array.\<close>

definition at_index :: "'a list \<Rightarrow> nat \<Rightarrow> 'a option" where
  "at_index xs i = (if i < length xs then Some (xs ! i) else None)"

text \<open>\<open>v || ""\<close> on a string or \<open>undefined\<close>: the empty string when \<open>v\<close> is falsy.\<close>

definition or_empty :: "string option \<Rightarrow> string" where
  "or_empty v = (case v of None \<Rightarrow> [] | Some s \<Rightarrow> (if s = [] then [] else s))"

text \<open>\<open>xs.includes(v)\<close> on an array of strings; \<open>undefined\<close> is never an element.\<close>

definition array_includes :: "string list \<Rightarrow> string option \<Rightarrow> bool" where
  "array_includes xs v = (case v of None \<Rightarrow> False | Some s \<Rightarrow> s \<in> set xs)"

section \<open>\<open>computeDiff\<close>: the index-aligned diff\<close>

definition MAX_LINES :: nat where
  "MAX_LINES = 500"

text \<open>What one iteration of the \<open>for\<close> loop pushes onto \<open>result\<close>.\<close>

definition diff_step :: "string list \<Rightarrow> string list \<Rightarrow> nat \<Rightarrow> DiffLine list" where
  "diff_step before_t after_t i =
     (let beforeLine = at_index before_t i; afterLine = at_index after_t i in
      if beforeLine = None \<and> afterLine \<noteq> None then
        [\<lparr>type = Added, lineNumber = i + 1, content = (case afterLine of Some a \<Rightarrow> a | None \<Rightarrow> [])\<rparr>]
      else if beforeLine \<noteq> None \<and> afterLine = None then
        [\<lparr>type = Removed, lineNumber = i + 1, content = (case beforeLine of Some b \<Rightarrow> b | None \<Rightarrow> [])\<rparr>]
      else if beforeLine = afterLine then
        [\<lparr>type = Unchanged, lineNumber = i + 1, content = or_empty afterLine\<rparr>]
      else
        [\<lparr>type = Removed, lineNumber = i + 1, content = or_empty beforeLine\<rparr>,
         \<lparr>type = Added, lineNumber = i + 1, content = or_empty afterLine\<rparr>])"

text \<open>The loop \<open>for (let i = 0; i < maxLen; i++)\<close>, with \<open>result\<close> threaded through.\<close>

function diff_loop ::
  "string list \<Rightarrow> string list \<Rightarrow> nat \<Rightarrow> nat \<Rightarrow> DiffLine list \<Rightarrow> DiffLine list" where
  "diff_loop before_t after_t maxLen i result =
     (if i < maxLen then diff_loop before_t after_t maxLen (i + 1) (result @ diff_step before_t after_t i)
      else result)"
  by pat_completeness auto
termination
  by (relation "measure (\<lambda>(before_t, after_t, maxLen, i, result). maxLen - i)") auto

definition computeDiff :: "string \<Rightarrow> string \<Rightarrow> DiffLine list" where
  "computeDiff beforeCode afterCode =
     (let beforeLines = split_newline (or_empty (Some beforeCode));
          afterLines = split_newline (or_empty (Some afterCode));
          before_t = take MAX_LINES beforeLines;
          after_t = take MAX_LINES afterLines;
          maxLen = max (length before_t) (length after_t)
      in diff_loop before_t after_t maxLen 0 [])"

text \<open>The two slices \<open>beforeLines.slice(0, MAX_LINES)\<close> and \<open>afterLines.slice(0, MAX_LINES)\<close>
  that \<open>computeDiff\<close> walks, as a function of the text.\<close>

definition sliced_lines :: "string \<Rightarrow> string list" where
  "sliced_lines code = take MAX_LINES (split_newline (or_empty (Some code)))"

section \<open>The current \<open>DiffViewer\<close>: annotations, truncation banner, split view\<close>

text \<open>\<open>annotations.find((a) => a.line === lineNumber)\<close>: the first annotation on that
  line, \<open>undefined\<close> when there is none.\<close>

definition getAnnotationForLine :: "Annotation list \<Rightarrow> nat \<Rightarrow> Annotation option" where
  "getAnnotationForLine annotations n = find (\<lambda>a. line a = int n) annotations"

text \<open>The banner \<open>Large file: Showing first 500 lines only. Full file has N lines.\<close>:
  \<^const>\<open>None\<close> when it is not rendered, otherwise the number \<open>N\<close> it prints.\<close>

definition truncationWarning :: "string \<Rightarrow> string \<Rightarrow> nat option" where
  "truncationWarning beforeCode afterCode =
     (let beforeLines = split_newline (or_empty (Some beforeCode));
          afterLines = split_newline (or_empty (Some afterCode))
      in if length beforeLines > 500 \<or> length afterLines > 500
         then Some (max (length beforeLines) (length afterLines)) else None)"

text \<open>The split view. Each row of the "Before" pane is its printed number \<open>idx + 1\<close>, the
  line and the flag \<open>isRemoved\<close>; each row of the "After" pane is the number, the line, the
  flag \<open>isAdded\<close> and the annotation looked up for \<open>idx + 1\<close>.\<close>

definition splitBefore :: "string \<Rightarrow> string \<Rightarrow> (nat \<times> string \<times> bool) list" where
  "splitBefore beforeCode afterCode =
     (let beforeLines = split_newline (or_empty (Some beforeCode));
          afterLines = split_newline (or_empty (Some afterCode));
          afterLinesSet = set afterLines
      in map (\<lambda>(idx, line). (idx + 1, line, line \<notin> afterLinesSet))
           (enumerate 0 (take 500 beforeLines)))"

definition splitAfter ::
  "Annotation list \<Rightarrow> string \<Rightarrow> string \<Rightarrow> (nat \<times> string \<times> bool \<times> Annotation option) list" where
  "splitAfter annotations beforeCode afterCode =
     (let beforeLines = split_newline (or_empty (Some beforeCode));
          afterLines = split_newline (or_empty (Some afterCode));
          beforeLinesSet = set beforeLines
      in map (\<lambda>(idx, line).
                (idx + 1, line, line \<notin> beforeLinesSet, getAnnotationForLine annotations (idx + 1)))
           (enumerate 0 (take 500 afterLines)))"

text \<open>The unified view: every record of \<open>diffLines\<close> with the annotation looked up for its
  \<open>lineNumber\<close>.\<close>

definition unifiedView ::
  "Annotation list \<Rightarrow> string \<Rightarrow> string \<Rightarrow> (DiffLine \<times> Annotation option) list" where
  "unifiedView annotations beforeCode afterCode =
     map (\<lambda>l. (l, getAnnotationForLine annotations (lineNumber l))) (computeDiff beforeCode afterCode)"

section \<open>The earlier \<open>DiffViewer\<close>: the \<open>while\<close> loop with two cursors\<close>

text \<open>
  The first version of the component builds \<open>diffLines\<close> inline with
  \<open>while (beforeIdx < beforeLines.length || afterIdx < afterLines.length)\<close>. The loop is
  not obviously terminating, so it is a partial function: \<^const>\<open>None\<close> means that the
  loop never exits.
\<close>

partial_function (option) DiffViewer_while ::
  "string list \<Rightarrow> string list \<Rightarrow> nat \<Rightarrow> nat \<Rightarrow> DiffLine list \<Rightarrow> DiffLine list option" where
  "DiffViewer_while beforeLines afterLines beforeIdx afterIdx diffLines =
     (if beforeIdx < length beforeLines \<or> afterIdx < length afterLines then
        (let beforeLine = at_index beforeLines beforeIdx;
             afterLine = at_index afterLines afterIdx in
         if beforeLine = afterLine then
           DiffViewer_while beforeLines afterLines (beforeIdx + 1) (afterIdx + 1)
             (diffLines @ [\<lparr>type = Unchanged, lineNumber = afterIdx + 1, content = or_empty afterLine\<rparr>])
         else if \<not> array_includes afterLines beforeLine \<and> beforeLine \<noteq> None then
           DiffViewer_while beforeLines afterLines (beforeIdx + 1) afterIdx
             (diffLines @ [\<lparr>type = Removed, lineNumber = beforeIdx + 1,
                             content = (case beforeLine of Some b \<Rightarrow> b | None \<Rightarrow> [])\<rparr>])
         else
           DiffViewer_while beforeLines afterLines beforeIdx (afterIdx + 1)
             (diffLines @ [\<lparr>type = Added, lineNumber = afterIdx + 1, content = or_empty afterLine\<rparr>]))
      else Some diffLines)"

declare DiffViewer_while.simps [code]

definition DiffViewer_diffLines :: "string \<Rightarrow> string \<Rightarrow> DiffLine list option" where
  "DiffViewer_diffLines beforeCode afterCode =
     (let beforeLines = split_newline (or_empty (Some beforeCode));
          afterLines = split_newline (or_empty (Some afterCode))
      in DiffViewer_while beforeLines afterLines 0 0 [])"

section \<open>Basic facts about the primitives\<close>

lemma or_empty_Some: "or_empty (Some s) = s"
  by (simp add: or_empty_def)

lemma or_empty_None: "or_empty None = []"
  by (simp add: or_empty_def)

lemma split_from_not_Nil: "split_from cur s \<noteq> []"
  by (induction s arbitrary: cur) auto

lemma split_newline_not_Nil: "split_newline s \<noteq> []"
  by (simp add: split_newline_def split_from_not_Nil)

lemma split_from_replicate:
  "split_from cur (replicate n (CHR 0x0A)) = cur # replicate n []"
  by (induction n arbitrary: cur) auto

lemma split_newline_replicate:
  "split_newline (replicate n (CHR 0x0A)) = replicate (Suc n) []"
  by (simp add: split_newline_def split_from_replicate)

lemma sliced_lines_eq: "sliced_lines s = take MAX_LINES (split_newline s)"
  by (simp add: sliced_lines_def or_empty_Some)

lemma sliced_lines_not_Nil: "sliced_lines s \<noteq> []"
  by (simp add: sliced_lines_eq MAX_LINES_def split_newline_not_Nil)

lemma length_sliced_lines: "length (sliced_lines s) = min (length (split_newline s)) MAX_LINES"
  by (simp add: sliced_lines_eq)

lemma length_sliced_lines_le: "length (sliced_lines s) \<le> MAX_LINES"
  by (simp add: sliced_lines_eq)

section \<open>The loop as a concatenation of its iterations\<close>

lemma diff_loop_acc:
  "diff_loop b a maxLen i acc = acc @ concat (map (diff_step b a) [i..<maxLen])"
proof (induction b a maxLen i acc rule: diff_loop.induct)
  case (1 b a maxLen i result)
  show ?case
  proof (cases "i < maxLen")
    case True
    have "diff_loop b a maxLen i result = diff_loop b a maxLen (i + 1) (result @ diff_step b a i)"
      using True by simp
    also have "\<dots> = (result @ diff_step b a i) @ concat (map (diff_step b a) [i + 1..<maxLen])"
      using True by (rule "1.IH")
    also have "\<dots> = result @ concat (map (diff_step b a) [i..<maxLen])"
      using True by (simp add: upt_conv_Cons)
    finally show ?thesis .
  next
    case False
    then show ?thesis by simp
  qed
qed

lemma computeDiff_steps:
  "computeDiff b a =
     concat (map (diff_step (sliced_lines b) (sliced_lines a))
               [0..<max (length (sliced_lines b)) (length (sliced_lines a))])"
  unfolding computeDiff_def sliced_lines_def Let_def by (simp only: diff_loop_acc append_Nil)

text \<open>The four reachable branches of one iteration.\<close>

lemma diff_step_both_eq:
  "i < length b \<Longrightarrow> i < length a \<Longrightarrow> b ! i = a ! i \<Longrightarrow>
   diff_step b a i = [\<lparr>type = Unchanged, lineNumber = i + 1, content = a ! i\<rparr>]"
  by (simp add: diff_step_def at_index_def or_empty_Some)

lemma diff_step_both_neq:
  "i < length b \<Longrightarrow> i < length a \<Longrightarrow> b ! i \<noteq> a ! i \<Longrightarrow>
   diff_step b a i = [\<lparr>type = Removed, lineNumber = i + 1, content = b ! i\<rparr>,
                      \<lparr>type = Added, lineNumber = i + 1, content = a ! i\<rparr>]"
  by (simp add: diff_step_def at_index_def or_empty_Some)

lemma diff_step_only_before:
  "i < length b \<Longrightarrow> \<not> i < length a \<Longrightarrow>
   diff_step b a i = [\<lparr>type = Removed, lineNumber = i + 1, content = b ! i\<rparr>]"
  by (simp add: diff_step_def at_index_def)

lemma diff_step_only_after:
  "\<not> i < length b \<Longrightarrow> i < length a \<Longrightarrow>
   diff_step b a i = [\<lparr>type = Added, lineNumber = i + 1, content = a ! i\<rparr>]"
  by (simp add: diff_step_def at_index_def)

lemmas diff_step_branches =
  diff_step_both_eq diff_step_both_neq diff_step_only_before diff_step_only_after

lemma diff_step_cases:
  assumes "i < max (length b) (length a)"
  obtains (same) "i < length b" "i < length a" "b ! i = a ! i"
        | (differ) "i < length b" "i < length a" "b ! i \<noteq> a ! i"
        | (only_before) "i < length b" "\<not> i < length a"
        | (only_after) "\<not> i < length b" "i < length a"
  using assms by (cases "i < length b"; cases "i < length a"; cases "b ! i = a ! i") auto

section \<open>Reading one side back from the result\<close>

lemma before_side_step:
  "i < max (length b) (length a) \<Longrightarrow>
   map content (filter (\<lambda>r. type r \<noteq> Added) (diff_step b a i)) =
     (if i < length b then [b ! i] else [])"
  by (erule diff_step_cases) (simp_all add: diff_step_branches)

lemma after_side_step:
  "i < max (length b) (length a) \<Longrightarrow>
   map content (filter (\<lambda>r. type r \<noteq> Removed) (diff_step b a i)) =
     (if i < length a then [a ! i] else [])"
  by (erule diff_step_cases) (simp_all add: diff_step_branches)

lemma concat_nth_upto:
  "length xs \<le> m \<Longrightarrow> concat (map (\<lambda>i. if i < length xs then [xs ! i] else []) [0..<m]) = xs"
proof (induction m arbitrary: xs)
  case 0
  then show ?case by simp
next
  case (Suc m)
  show ?case
  proof (cases "length xs = Suc m")
    case True
    then obtain ys y where xs: "xs = ys @ [y]" and len: "length ys = m"
      by (metis length_Suc_conv_rev)
    have "concat (map (\<lambda>i. if i < length xs then [xs ! i] else []) [0..<m])
        = concat (map (\<lambda>i. if i < length ys then [ys ! i] else []) [0..<m])"
      by (rule arg_cong[where f=concat], rule map_cong) (auto simp: xs len nth_append)
    also have "\<dots> = ys" using Suc.IH[of ys] len by simp
    finally have "concat (map (\<lambda>i. if i < length xs then [xs ! i] else []) [0..<m]) = ys" .
    moreover have "xs ! m = y" by (simp add: xs len[symmetric])
    ultimately show ?thesis using True by (simp add: xs)
  next
    case False
    with Suc.prems have "length xs \<le> m" by simp
    then show ?thesis using Suc.IH[of xs] by simp
  qed
qed

lemma side_projection:
  assumes "\<And>i. i < m \<Longrightarrow> map content (filter P (f i)) = (if i < length xs then [xs ! i] else [])"
    and "length xs \<le> m"
  shows "map content (filter P (concat (map f [0..<m]))) = xs"
proof -
  have "map content (filter P (concat (map f [0..<m])))
      = concat (map (\<lambda>i. map content (filter P (f i))) [0..<m])"
    by (simp add: filter_concat map_concat comp_def)
  also have "\<dots> = concat (map (\<lambda>i. if i < length xs then [xs ! i] else []) [0..<m])"
    by (rule arg_cong[where f=concat], rule map_cong) (simp_all add: assms(1))
  also have "\<dots> = xs" by (rule concat_nth_upto[OF assms(2)])
  finally show ?thesis .
qed

lemma computeDiff_before_side:
  "map content (filter (\<lambda>r. type r \<noteq> Added) (computeDiff b a)) = sliced_lines b"
  unfolding computeDiff_steps by (intro side_projection before_side_step) simp_all

lemma computeDiff_after_side:
  "map content (filter (\<lambda>r. type r \<noteq> Removed) (computeDiff b a)) = sliced_lines a"
  unfolding computeDiff_steps by (intro side_projection after_side_step) simp_all

section \<open>Claims\<close>

text \<open>
  Claim C2. For every pair of texts, the contents of the \<open>removed\<close> and \<open>unchanged\<close>
  records of the result, in the order in which they were pushed, are exactly the first
  500 lines of the "before" text, and the contents of the \<open>added\<close> and \<open>unchanged\<close>
  records are exactly the first 500 lines of the "after" text.
\<close>

theorem computeDiff_reconstructs_both_sides:
  "map content (filter (\<lambda>r. type r = Removed \<or> type r = Unchanged) (computeDiff beforeCode afterCode))
     = take MAX_LINES (split_newline beforeCode)
   \<and> map content (filter (\<lambda>r. type r = Added \<or> type r = Unchanged) (computeDiff beforeCode afterCode))
     = take MAX_LINES (split_newline afterCode)"
proof -
  have "(\<lambda>r::DiffLine. type r = Removed \<or> type r = Unchanged) = (\<lambda>r. type r \<noteq> Added)"
    by (rule ext) (metis DiffType.exhaust DiffType.distinct)
  moreover have "(\<lambda>r::DiffLine. type r = Added \<or> type r = Unchanged) = (\<lambda>r. type r \<noteq> Removed)"
    by (rule ext) (metis DiffType.exhaust DiffType.distinct)
  ultimately show ?thesis
    by (simp only: computeDiff_before_side computeDiff_after_side sliced_lines_eq)
qed

text \<open>
  Claim C10. On two empty texts the result is a single record: \<open>unchanged\<close>, line number
  1, empty content. An empty string splits into one empty line, not into no lines.
\<close>

theorem computeDiff_empty_empty:
  "computeDiff [] [] = [\<lparr>type = Unchanged, lineNumber = 1, content = []\<rparr>]
   \<and> split_newline [] = [[]]"
  by (simp add: computeDiff_steps sliced_lines_eq split_newline_def MAX_LINES_def diff_step_both_eq)

lemma DiffViewer_while_stuck_aux:
  assumes "DiffViewer_while beforeLines afterLines beforeIdx afterIdx diffLines = Some y"
  shows "\<not> (beforeIdx < length beforeLines \<and> length afterLines \<le> afterIdx
      \<and> beforeLines ! beforeIdx \<in> set afterLines)"
proof (rule DiffViewer_while.raw_induct
    [where P = "\<lambda>bl al bi ai d y. \<not> (bi < length bl \<and> length al \<le> ai \<and> bl ! bi \<in> set al)",
     OF _ assms])
  fix loop :: "string list \<Rightarrow> string list \<Rightarrow> nat \<Rightarrow> nat \<Rightarrow> DiffLine list \<Rightarrow> DiffLine list option"
    and bl al :: "string list" and bi ai :: nat and d r :: "DiffLine list"
  assume IH: "\<And>bl al bi ai d y. loop bl al bi ai d = Some y \<Longrightarrow>
                \<not> (bi < length bl \<and> length al \<le> ai \<and> bl ! bi \<in> set al)"
  assume body: "(if bi < length bl \<or> ai < length al then
        (let beforeLine = at_index bl bi; afterLine = at_index al ai in
         if beforeLine = afterLine then
           loop bl al (bi + 1) (ai + 1)
             (d @ [\<lparr>type = Unchanged, lineNumber = ai + 1, content = or_empty afterLine\<rparr>])
         else if \<not> array_includes al beforeLine \<and> beforeLine \<noteq> None then
           loop bl al (bi + 1) ai
             (d @ [\<lparr>type = Removed, lineNumber = bi + 1,
                     content = (case beforeLine of Some b \<Rightarrow> b | None \<Rightarrow> [])\<rparr>])
         else
           loop bl al bi (ai + 1)
             (d @ [\<lparr>type = Added, lineNumber = ai + 1, content = or_empty afterLine\<rparr>]))
      else Some d) = Some r"
  show "\<not> (bi < length bl \<and> length al \<le> ai \<and> bl ! bi \<in> set al)"
  proof
    assume stuck: "bi < length bl \<and> length al \<le> ai \<and> bl ! bi \<in> set al"
    then have "loop bl al bi (ai + 1)
        (d @ [\<lparr>type = Added, lineNumber = ai + 1, content = or_empty None\<rparr>]) = Some r"
      using body by (simp add: at_index_def array_includes_def)
    then have "\<not> (bi < length bl \<and> length al \<le> ai + 1 \<and> bl ! bi \<in> set al)"
      by (rule IH)
    with stuck show False by simp
  qed
qed

lemma DiffViewer_while_stuck:
  assumes "beforeIdx < length beforeLines" and "length afterLines \<le> afterIdx"
    and "beforeLines ! beforeIdx \<in> set afterLines"
  shows "DiffViewer_while beforeLines afterLines beforeIdx afterIdx diffLines = None"
proof (cases "DiffViewer_while beforeLines afterLines beforeIdx afterIdx diffLines")
  case None
  then show ?thesis .
next
  case (Some y)
  from DiffViewer_while_stuck_aux[OF Some] assms show ?thesis by simp
qed

text \<open>
  Claim C3. The diff computation returns for every pair of texts, in both
  implementations. For \<open>computeDiff\<close> this is the termination proof of \<^const>\<open>diff_loop\<close>
  above (the measure \<open>maxLen - i\<close>). The \<open>while\<close> loop of the earlier component does not:
  once the "after" cursor has run off the end while the current "before" line occurs
  somewhere in the "after" text, only the "after" cursor moves, and the loop condition
  stays true for ever. The texts "a", line feed, "a" and "a" reach that state after one
  iteration.
\<close>

theorem DiffViewer_while_never_exits:
  "DiffViewer_diffLines [CHR ''a'', CHR 0x0A, CHR ''a''] [CHR ''a''] = None"
proof -
  have b: "split_newline [CHR ''a'', CHR 0x0A, CHR ''a''] = [''a'', ''a'']"
    by (simp add: split_newline_def)
  have a: "split_newline [CHR ''a''] = [''a'']"
    by (simp add: split_newline_def)
  have "DiffViewer_while [''a'', ''a''] [''a''] 0 0 []
      = DiffViewer_while [''a'', ''a''] [''a''] 1 1
          [\<lparr>type = Unchanged, lineNumber = 1, content = ''a''\<rparr>]"
    by (subst DiffViewer_while.simps) (simp add: at_index_def or_empty_Some)
  also have "\<dots> = None"
    by (rule DiffViewer_while_stuck) simp_all
  finally show ?thesis
    by (simp add: DiffViewer_diffLines_def or_empty_Some a b)
qed

lemma diff_step_lineNumber: "r \<in> set (diff_step b a i) \<Longrightarrow> lineNumber r = i + 1"
  by (auto simp: diff_step_def Let_def split: if_splits)

lemma length_diff_step: "length (diff_step b a i) \<le> 2"
  by (simp add: diff_step_def Let_def)

lemma diff_step_pair:
  "diff_step b a i = [x, y] \<Longrightarrow> type x = Removed \<and> type y = Added"
  by (auto simp: diff_step_def Let_def split: if_splits)

lemma steps_lineNumber:
  "r \<in> set (concat (map (diff_step b a) [i..<m])) \<Longrightarrow> i + 1 \<le> lineNumber r \<and> lineNumber r \<le> m"
  by (auto dest: diff_step_lineNumber)

lemma steps_sorted: "sorted (map lineNumber (concat (map (diff_step b a) [0..<m])))"
proof (induction m)
  case 0
  then show ?case by simp
next
  case (Suc m)
  have "\<And>x y. x \<in> set (concat (map (diff_step b a) [0..<m])) \<Longrightarrow> y \<in> set (diff_step b a m)
        \<Longrightarrow> lineNumber x \<le> lineNumber y"
    using steps_lineNumber[of _ b a 0 m] diff_step_lineNumber[of _ b a m] by fastforce
  moreover have "sorted (map lineNumber (diff_step b a m))"
    by (simp add: diff_step_def Let_def)
  ultimately show ?case using Suc.IH
    by (auto simp: sorted_append)
qed

lemma steps_at_lineNumber:
  "filter (\<lambda>r. lineNumber r = n) (concat (map (diff_step b a) [0..<m]))
     = (if 1 \<le> n \<and> n \<le> m then diff_step b a (n - 1) else [])"
proof (induction m)
  case 0
  then show ?case by auto
next
  case (Suc m)
  have last: "filter (\<lambda>r. lineNumber r = n) (diff_step b a m) = (if n = Suc m then diff_step b a m else [])"
    by (auto simp: filter_empty_conv filter_id_conv dest: diff_step_lineNumber)
  show ?case
  proof (cases "n = Suc m")
    case True
    then show ?thesis using Suc.IH last by simp
  next
    case False
    then show ?thesis using Suc.IH last by auto
  qed
qed

lemma length_steps: "length (concat (map (diff_step b a) [0..<m])) \<le> 2 * m"
proof (induction m)
  case 0
  then show ?case by simp
next
  case (Suc m)
  then show ?case using length_diff_step[of b a m] by simp
qed

lemma maxLen_le: "max (length (sliced_lines b)) (length (sliced_lines a)) \<le> MAX_LINES"
  by (simp add: length_sliced_lines_le)

text \<open>
  Claim C9. For every pair of texts: every record of the result has a line number
  between 1 and 500; the line numbers never decrease along the result; no line number
  occurs on more than two records, and where it occurs on two they are a \<open>removed\<close>
  record followed by an \<open>added\<close> record; the result has at most 1000 records.
\<close>

theorem computeDiff_line_numbers:
  "(\<forall>r \<in> set (computeDiff beforeCode afterCode). 1 \<le> lineNumber r \<and> lineNumber r \<le> 500)
   \<and> sorted (map lineNumber (computeDiff beforeCode afterCode))
   \<and> (\<forall>n. length (filter (\<lambda>r. lineNumber r = n) (computeDiff beforeCode afterCode)) \<le> 2)
   \<and> (\<forall>n x y. filter (\<lambda>r. lineNumber r = n) (computeDiff beforeCode afterCode) = [x, y]
         \<longrightarrow> type x = Removed \<and> type y = Added)
   \<and> length (computeDiff beforeCode afterCode) \<le> 1000"
proof (intro conjI ballI allI impI)
  let ?b = "sliced_lines beforeCode" and ?a = "sliced_lines afterCode"
  let ?m = "max (length ?b) (length ?a)"
  have m: "?m \<le> 500" using maxLen_le[of beforeCode afterCode] by (simp add: MAX_LINES_def)
  { fix r assume "r \<in> set (computeDiff beforeCode afterCode)"
    then have "0 + 1 \<le> lineNumber r \<and> lineNumber r \<le> ?m"
      unfolding computeDiff_steps by (rule steps_lineNumber)
    then show "1 \<le> lineNumber r" and "lineNumber r \<le> 500" using m by linarith+ }
  show "sorted (map lineNumber (computeDiff beforeCode afterCode))"
    unfolding computeDiff_steps by (rule steps_sorted)
  { fix n
    show "length (filter (\<lambda>r. lineNumber r = n) (computeDiff beforeCode afterCode)) \<le> 2"
      unfolding computeDiff_steps steps_at_lineNumber by (simp add: length_diff_step) }
  { fix n x y
    assume "filter (\<lambda>r. lineNumber r = n) (computeDiff beforeCode afterCode) = [x, y]"
    then have "diff_step ?b ?a (n - 1) = [x, y]"
      unfolding computeDiff_steps steps_at_lineNumber by (simp split: if_splits)
    then show "type x = Removed" and "type y = Added"
      using diff_step_pair by blast+ }
  show "length (computeDiff beforeCode afterCode) \<le> 1000"
    unfolding computeDiff_steps using length_steps[of ?b ?a ?m] m by linarith
qed

text \<open>The texts "x" and "y": one position, where the two lines differ.\<close>

lemma computeDiff_x_y:
  "computeDiff ''x'' ''y'' = [\<lparr>type = Removed, lineNumber = 1, content = ''x''\<rparr>,
                              \<lparr>type = Added, lineNumber = 1, content = ''y''\<rparr>]"
  by (simp add: computeDiff_steps sliced_lines_eq split_newline_def MAX_LINES_def diff_step_both_neq)

theorem computeDiff_line_numbers_witness:
  "\<lparr>type = Added, lineNumber = 1, content = ''y''\<rparr> \<in> set (computeDiff ''x'' ''y'')
   \<and> 1 \<le> lineNumber \<lparr>type = Added, lineNumber = 1, content = ''y''\<rparr>
   \<and> lineNumber \<lparr>type = Added, lineNumber = 1, content = ''y''\<rparr> \<le> 500
   \<and> filter (\<lambda>r. lineNumber r = 1) (computeDiff ''x'' ''y'')
       = [\<lparr>type = Removed, lineNumber = 1, content = ''x''\<rparr>,
          \<lparr>type = Added, lineNumber = 1, content = ''y''\<rparr>]
   \<and> type \<lparr>type = Removed, lineNumber = 1, content = ''x''\<rparr> = Removed
   \<and> type \<lparr>type = Added, lineNumber = 1, content = ''y''\<rparr> = Added
   \<and> sorted (map lineNumber (computeDiff ''x'' ''y''))
   \<and> length (computeDiff ''x'' ''y'') \<le> 1000"
  using computeDiff_line_numbers[of "''x''" "''y''"]
  by (simp add: computeDiff_x_y)

lemma concat_map_singleton: "concat (map (\<lambda>i. [f i]) xs) = map f xs"
  by (induction xs) simp_all

lemma upt_split_at: "i < m \<Longrightarrow> [0..<m] = [0..<i] @ i # [Suc i..<m]"
proof -
  assume "i < m"
  then have "[0..<m] = [0..<i + (m - i)]" by simp
  also have "\<dots> = [0..<i] @ [i..<i + (m - i)]" by (rule upt_add_eq_append) simp
  also have "[i..<i + (m - i)] = i # [Suc i..<m]" using \<open>i < m\<close> by (simp add: upt_conv_Cons)
  finally show ?thesis .
qed

text \<open>
  Claim C5. For every position \<open>i\<close> that both sliced sides have and where their lines
  differ, the result contains a \<open>removed\<close> record with line number \<open>i + 1\<close> and the
  "before" line, immediately followed by an \<open>added\<close> record with the same line number
  and the "after" line. Everything pushed earlier has a smaller line number and
  everything pushed later a larger one, so the two records are exactly the records of
  that line number.
\<close>

theorem computeDiff_differing_lines:
  assumes "i < length (sliced_lines beforeCode)"
    and "i < length (sliced_lines afterCode)"
    and "sliced_lines beforeCode ! i \<noteq> sliced_lines afterCode ! i"
  shows "\<exists>pre post.
           computeDiff beforeCode afterCode =
             pre @ [\<lparr>type = Removed, lineNumber = i + 1, content = sliced_lines beforeCode ! i\<rparr>,
                    \<lparr>type = Added, lineNumber = i + 1, content = sliced_lines afterCode ! i\<rparr>] @ post
           \<and> (\<forall>r \<in> set pre. lineNumber r < i + 1)
           \<and> (\<forall>r \<in> set post. i + 1 < lineNumber r)"
proof -
  let ?b = "sliced_lines beforeCode" and ?a = "sliced_lines afterCode"
  let ?m = "max (length ?b) (length ?a)"
  let ?pre = "concat (map (diff_step ?b ?a) [0..<i])"
  let ?post = "concat (map (diff_step ?b ?a) [Suc i..<?m])"
  have "i < ?m" using assms(1) by simp
  then have "[0..<?m] = [0..<i] @ i # [Suc i..<?m]"
    by (rule upt_split_at)
  then have "computeDiff beforeCode afterCode = ?pre @ diff_step ?b ?a i @ ?post"
    unfolding computeDiff_steps by simp
  moreover have "\<forall>r \<in> set ?pre. lineNumber r < i + 1"
    using steps_lineNumber[of _ ?b ?a 0 i] by fastforce
  moreover have "\<forall>r \<in> set ?post. i + 1 < lineNumber r"
    using steps_lineNumber[of _ ?b ?a "Suc i" ?m] by fastforce
  ultimately show ?thesis
    unfolding diff_step_both_neq[OF assms] by blast
qed

theorem computeDiff_differing_lines_witness:
  "0 < length (sliced_lines ''x'') \<and> 0 < length (sliced_lines ''y'')
   \<and> sliced_lines ''x'' ! 0 \<noteq> sliced_lines ''y'' ! 0
   \<and> (\<exists>pre post.
           computeDiff ''x'' ''y'' =
             pre @ [\<lparr>type = Removed, lineNumber = 0 + 1, content = sliced_lines ''x'' ! 0\<rparr>,
                    \<lparr>type = Added, lineNumber = 0 + 1, content = sliced_lines ''y'' ! 0\<rparr>] @ post
           \<and> (\<forall>r \<in> set pre. lineNumber r < 0 + 1)
           \<and> (\<forall>r \<in> set post. 0 + 1 < lineNumber r))"
proof -
  have h: "0 < length (sliced_lines ''x'')" "0 < length (sliced_lines ''y'')"
    "sliced_lines ''x'' ! 0 \<noteq> sliced_lines ''y'' ! 0"
    by (simp_all add: sliced_lines_eq split_newline_def MAX_LINES_def)
  from computeDiff_differing_lines[OF h] h show ?thesis by blast
qed

text \<open>
  Claim C1. With an empty "before" text every record of the result should be \<open>added\<close>,
  one per line of the "after" text, and with an empty "after" text every record should
  be \<open>removed\<close>, one per line of the "before" text: the component's own description
  says that an empty \<open>beforeCode\<close> means the file was added and an empty \<open>afterCode\<close>
  that it was deleted. \<open>computeDiff\<close> does not do this. The empty text is split into
  one empty line, so at the first position both sides are defined and the branch for an
  exhausted side is not taken. For the added file "a" the result is a \<open>removed\<close> record
  with empty content followed by the \<open>added\<close> record, two records for one line and one
  deletion counted; for the deleted file "a" it is the \<open>removed\<close> record followed by an
  \<open>added\<close> record with empty content, and one addition counted.
\<close>

theorem computeDiff_empty_side_phantom_record:
  "computeDiff [] ''a'' = [\<lparr>type = Removed, lineNumber = 1, content = []\<rparr>,
                           \<lparr>type = Added, lineNumber = 1, content = ''a''\<rparr>]
   \<and> type (computeDiff [] ''a'' ! 0) \<noteq> Added
   \<and> length (computeDiff [] ''a'') \<noteq> length (split_newline ''a'')
   \<and> length (filter (\<lambda>l. type l = Removed) (computeDiff [] ''a'')) = 1
   \<and> computeDiff ''a'' [] = [\<lparr>type = Removed, lineNumber = 1, content = ''a''\<rparr>,
                             \<lparr>type = Added, lineNumber = 1, content = []\<rparr>]
   \<and> type (computeDiff ''a'' [] ! 1) \<noteq> Removed
   \<and> length (computeDiff ''a'' []) \<noteq> length (split_newline ''a'')
   \<and> length (filter (\<lambda>l. type l = Added) (computeDiff ''a'' [])) = 1"
proof -
  have added_file: "computeDiff [] ''a'' = [\<lparr>type = Removed, lineNumber = 1, content = []\<rparr>,
                           \<lparr>type = Added, lineNumber = 1, content = ''a''\<rparr>]"
    by (simp add: computeDiff_steps sliced_lines_eq split_newline_def MAX_LINES_def diff_step_both_neq)
  have deleted_file: "computeDiff ''a'' [] = [\<lparr>type = Removed, lineNumber = 1, content = ''a''\<rparr>,
                             \<lparr>type = Added, lineNumber = 1, content = []\<rparr>]"
    by (simp add: computeDiff_steps sliced_lines_eq split_newline_def MAX_LINES_def diff_step_both_neq)
  show ?thesis unfolding added_file deleted_file by (simp add: split_newline_def)
qed

lemma computeDiff_same:
  "computeDiff x x =
     map (\<lambda>i. \<lparr>type = Unchanged, lineNumber = i + 1, content = sliced_lines x ! i\<rparr>)
       [0..<length (sliced_lines x)]"
proof -
  have "map (diff_step (sliced_lines x) (sliced_lines x)) [0..<length (sliced_lines x)]
      = map (\<lambda>i. [\<lparr>type = Unchanged, lineNumber = i + 1, content = sliced_lines x ! i\<rparr>])
          [0..<length (sliced_lines x)]"
    by (rule map_cong) (simp_all add: diff_step_both_eq)
  then show ?thesis
    unfolding computeDiff_steps by (simp only: max.idem concat_map_singleton)
qed

text \<open>
  Claim C7, as amended. Diffing a text against itself gives only \<open>unchanged\<close> records,
  and their number is the number of lines of the text or 500, whichever is smaller.
\<close>

theorem computeDiff_same_text:
  "map type (computeDiff x x) = replicate (min (length (split_newline x)) 500) Unchanged
   \<and> length (computeDiff x x) = min (length (split_newline x)) 500"
proof -
  have "length (sliced_lines x) = min (length (split_newline x)) 500"
    by (simp add: length_sliced_lines MAX_LINES_def)
  then show ?thesis
    by (simp add: computeDiff_same comp_def map_replicate_const)
qed

text \<open>
  The claim C7 as it was stated (the count is the number of lines) fails on the text of
  500 line feeds: it has 501 lines and the result has 500 records.
\<close>

theorem computeDiff_same_text_501_lines:
  "length (computeDiff (replicate 500 (CHR 0x0A)) (replicate 500 (CHR 0x0A))) = 500
   \<and> length (split_newline (replicate 500 (CHR 0x0A))) = 501"
  by (simp add: computeDiff_same length_sliced_lines split_newline_replicate MAX_LINES_def)

lemma diff_step_lineNumbers: "lineNumber ` set (diff_step b a i) = {i + 1}"
  by (auto simp: diff_step_def Let_def)

lemma steps_lineNumbers: "lineNumber ` set (concat (map (diff_step b a) [0..<m])) = {1..m}"
proof (induction m)
  case 0
  then show ?case by simp
next
  case (Suc m)
  have "{1..Suc m} = {1..m} \<union> {m + 1}" by auto
  then show ?case using Suc.IH by (simp add: image_Un diff_step_lineNumbers)
qed

text \<open>
  Claim C4. When both texts have 600 lines, the truncation banner is rendered and prints
  600 (the larger of the two line counts, here both 600); the line numbers of the result
  are exactly 1 to 500; and the two sides read back from the result are the first 500
  lines of each text, so the lines 501 to 600 of either side are not in the result.
\<close>

theorem computeDiff_600_lines:
  assumes "length (split_newline beforeCode) = 600" and "length (split_newline afterCode) = 600"
  shows "truncationWarning beforeCode afterCode = Some 600
       \<and> lineNumber ` set (computeDiff beforeCode afterCode) = {1..500}
       \<and> map content (filter (\<lambda>r. type r \<noteq> Added) (computeDiff beforeCode afterCode))
           = take 500 (split_newline beforeCode)
       \<and> map content (filter (\<lambda>r. type r \<noteq> Removed) (computeDiff beforeCode afterCode))
           = take 500 (split_newline afterCode)"
proof -
  have "truncationWarning beforeCode afterCode = Some 600"
    using assms by (simp add: truncationWarning_def or_empty_Some)
  moreover have "max (length (sliced_lines beforeCode)) (length (sliced_lines afterCode)) = 500"
    using assms by (simp add: length_sliced_lines MAX_LINES_def)
  then have "lineNumber ` set (computeDiff beforeCode afterCode) = {1..500}"
    unfolding computeDiff_steps by (simp only: steps_lineNumbers)
  moreover have "map content (filter (\<lambda>r. type r \<noteq> Added) (computeDiff beforeCode afterCode))
           = take 500 (split_newline beforeCode)"
    by (simp only: computeDiff_before_side sliced_lines_eq MAX_LINES_def)
  moreover have "map content (filter (\<lambda>r. type r \<noteq> Removed) (computeDiff beforeCode afterCode))
           = take 500 (split_newline afterCode)"
    by (simp only: computeDiff_after_side sliced_lines_eq MAX_LINES_def)
  ultimately show ?thesis by blast
qed

theorem computeDiff_600_lines_witness:
  "length (split_newline (replicate 599 (CHR 0x0A))) = 600
   \<and> truncationWarning (replicate 599 (CHR 0x0A)) (replicate 599 (CHR 0x0A)) = Some 600
   \<and> lineNumber ` set (computeDiff (replicate 599 (CHR 0x0A)) (replicate 599 (CHR 0x0A))) = {1..500}
   \<and> map content (filter (\<lambda>r. type r \<noteq> Added)
          (computeDiff (replicate 599 (CHR 0x0A)) (replicate 599 (CHR 0x0A))))
       = take 500 (split_newline (replicate 599 (CHR 0x0A)))
   \<and> map content (filter (\<lambda>r. type r \<noteq> Removed)
          (computeDiff (replicate 599 (CHR 0x0A)) (replicate 599 (CHR 0x0A))))
       = take 500 (split_newline (replicate 599 (CHR 0x0A)))"
proof -
  have h: "length (split_newline (replicate 599 (CHR 0x0A))) = 600"
    by (simp add: split_newline_replicate)
  from computeDiff_600_lines[OF h h] h show ?thesis by (intro conjI) (elim conjE, assumption)+
qed

lemma map_enumerate_nth:
  "map (\<lambda>(idx, x). f idx x) (enumerate 0 xs) = map (\<lambda>i. f i (xs ! i)) [0..<length xs]"
  by (rule nth_equalityI) (simp_all add: nth_enumerate_eq)

lemma splitBefore_rows:
  "splitBefore beforeCode afterCode =
     map (\<lambda>i. (i + 1, sliced_lines beforeCode ! i,
                sliced_lines beforeCode ! i \<notin> set (split_newline afterCode)))
       [0..<length (sliced_lines beforeCode)]"
  unfolding splitBefore_def Let_def or_empty_Some sliced_lines_eq MAX_LINES_def
  by (rule map_enumerate_nth)

lemma splitAfter_rows:
  "splitAfter annotations beforeCode afterCode =
     map (\<lambda>i. (i + 1, sliced_lines afterCode ! i,
                sliced_lines afterCode ! i \<notin> set (split_newline beforeCode),
                getAnnotationForLine annotations (i + 1)))
       [0..<length (sliced_lines afterCode)]"
  unfolding splitAfter_def Let_def or_empty_Some sliced_lines_eq MAX_LINES_def
  by (rule map_enumerate_nth)

lemma diff_step_in_computeDiff:
  assumes "i < max (length (sliced_lines b)) (length (sliced_lines a))"
    and "r \<in> set (diff_step (sliced_lines b) (sliced_lines a) i)"
  shows "r \<in> set (computeDiff b a)"
  unfolding computeDiff_steps using assms by auto

lemma not_in_text_not_in_slice: "x \<notin> set (split_newline s) \<Longrightarrow> x \<notin> set (sliced_lines s)"
  unfolding sliced_lines_eq by (meson in_set_takeD)

lemma removed_when_absent:
  assumes "i < length (sliced_lines b)" and "sliced_lines b ! i \<notin> set (split_newline a)"
  shows "\<lparr>type = Removed, lineNumber = i + 1, content = sliced_lines b ! i\<rparr> \<in> set (computeDiff b a)"
proof (rule diff_step_in_computeDiff)
  show "i < max (length (sliced_lines b)) (length (sliced_lines a))" using assms(1) by simp
  show "\<lparr>type = Removed, lineNumber = i + 1, content = sliced_lines b ! i\<rparr>
          \<in> set (diff_step (sliced_lines b) (sliced_lines a) i)"
  proof (cases "i < length (sliced_lines a)")
    case True
    then have "sliced_lines a ! i \<in> set (sliced_lines a)" by simp
    with assms(2) have "sliced_lines b ! i \<noteq> sliced_lines a ! i"
      using not_in_text_not_in_slice by metis
    then show ?thesis using assms(1) True by (simp add: diff_step_both_neq)
  next
    case False
    then show ?thesis using assms(1) by (simp add: diff_step_only_before)
  qed
qed

lemma added_when_absent:
  assumes "i < length (sliced_lines a)" and "sliced_lines a ! i \<notin> set (split_newline b)"
  shows "\<lparr>type = Added, lineNumber = i + 1, content = sliced_lines a ! i\<rparr> \<in> set (computeDiff b a)"
proof (rule diff_step_in_computeDiff)
  show "i < max (length (sliced_lines b)) (length (sliced_lines a))" using assms(1) by simp
  show "\<lparr>type = Added, lineNumber = i + 1, content = sliced_lines a ! i\<rparr>
          \<in> set (diff_step (sliced_lines b) (sliced_lines a) i)"
  proof (cases "i < length (sliced_lines b)")
    case True
    then have "sliced_lines b ! i \<in> set (sliced_lines b)" by simp
    with assms(2) have "sliced_lines b ! i \<noteq> sliced_lines a ! i"
      using not_in_text_not_in_slice by metis
    then show ?thesis using assms(1) True by (simp add: diff_step_both_neq)
  next
    case False
    then show ?thesis using assms(1) by (simp add: diff_step_only_after)
  qed
qed

text \<open>
  Claim C6, as amended. The split view and \<open>computeDiff\<close> do not apply one semantics; they
  agree in one direction only. Every line that the split view marks as removed (its text
  occurs nowhere in the "after" text) has a \<open>removed\<close> record in the result of
  \<open>computeDiff\<close> with the same line number and content, and every line that the split
  view marks as added has an \<open>added\<close> record there.
\<close>

theorem split_view_marks_agree_one_way:
  "(\<forall>(n, line, isRemoved) \<in> set (splitBefore beforeCode afterCode).
       isRemoved \<longrightarrow>
       \<lparr>type = Removed, lineNumber = n, content = line\<rparr> \<in> set (computeDiff beforeCode afterCode))
   \<and> (\<forall>(n, line, isAdded, annotation) \<in> set (splitAfter annotations beforeCode afterCode).
       isAdded \<longrightarrow>
       \<lparr>type = Added, lineNumber = n, content = line\<rparr> \<in> set (computeDiff beforeCode afterCode))"
  unfolding splitBefore_rows splitAfter_rows
  by (auto simp del: One_nat_def intro: removed_when_absent added_when_absent)

lemma computeDiff_a_b_b_a:
  "computeDiff [CHR ''a'', CHR 0x0A, CHR ''b''] [CHR ''b'', CHR 0x0A, CHR ''a''] =
     [\<lparr>type = Removed, lineNumber = 1, content = ''a''\<rparr>,
      \<lparr>type = Added, lineNumber = 1, content = ''b''\<rparr>,
      \<lparr>type = Removed, lineNumber = 2, content = ''b''\<rparr>,
      \<lparr>type = Added, lineNumber = 2, content = ''a''\<rparr>]"
  by code_simp

lemma splitBefore_a_b_b_a:
  "splitBefore [CHR ''a'', CHR 0x0A, CHR ''b''] [CHR ''b'', CHR 0x0A, CHR ''a''] =
     [(1, ''a'', False), (2, ''b'', False)]"
  by code_simp

text \<open>
  The claim C6 as it was stated fails when two lines change places: for the texts "a",
  line feed, "b" and "b", line feed, "a" the split view leaves line 1 of the "before"
  pane unmarked, while \<open>computeDiff\<close> classifies it as \<open>removed\<close>.
\<close>

theorem split_view_disagrees_on_swapped_lines:
  "splitBefore [CHR ''a'', CHR 0x0A, CHR ''b''] [CHR ''b'', CHR 0x0A, CHR ''a''] ! 0 = (1, ''a'', False)
   \<and> computeDiff [CHR ''a'', CHR 0x0A, CHR ''b''] [CHR ''b'', CHR 0x0A, CHR ''a''] ! 0
       = \<lparr>type = Removed, lineNumber = 1, content = ''a''\<rparr>"
  by (simp add: computeDiff_a_b_b_a splitBefore_a_b_b_a)

lemma splitBefore_x_y: "splitBefore ''x'' ''y'' = [(1, ''x'', True)]"
  by code_simp

lemma splitAfter_x_y: "splitAfter [] ''x'' ''y'' = [(1, ''y'', True, None)]"
  by code_simp

theorem split_view_marks_agree_one_way_witness:
  "(1, ''x'', True) \<in> set (splitBefore ''x'' ''y'')
   \<and> \<lparr>type = Removed, lineNumber = 1, content = ''x''\<rparr> \<in> set (computeDiff ''x'' ''y'')
   \<and> (1, ''y'', True, None) \<in> set (splitAfter [] ''x'' ''y'')
   \<and> \<lparr>type = Added, lineNumber = 1, content = ''y''\<rparr> \<in> set (computeDiff ''x'' ''y'')"
proof -
  have rows: "(1, ''x'', True) \<in> set (splitBefore ''x'' ''y'')"
    "(1, ''y'', True, None) \<in> set (splitAfter [] ''x'' ''y'')"
    by (simp_all add: splitBefore_x_y splitAfter_x_y)
  with split_view_marks_agree_one_way[of "''x''" "''y''" "[]"] show ?thesis by fastforce
qed

lemma find_single_match: "filter P xs = x # ys \<Longrightarrow> find P xs = Some x"
  by (induction xs) (auto split: if_splits)

lemma getAnnotationForLine_line:
  "getAnnotationForLine annotations n = Some x \<Longrightarrow> line x = int n \<and> x \<in> set annotations"
  unfolding getAnnotationForLine_def by (auto simp: find_Some_iff)

lemma computeDiff_lineNumber_le:
  "r \<in> set (computeDiff b a) \<Longrightarrow>
   lineNumber r \<le> max (length (sliced_lines b)) (length (sliced_lines a))"
  unfolding computeDiff_steps using steps_lineNumber[of r _ _ 0] by blast

lemma unifiedView_found:
  assumes "(l, Some x) \<in> set (unifiedView annotations beforeCode afterCode)"
  shows "line x \<le> int (max (length (sliced_lines beforeCode)) (length (sliced_lines afterCode)))"
proof -
  from assms have "l \<in> set (computeDiff beforeCode afterCode)"
    and "getAnnotationForLine annotations (lineNumber l) = Some x"
    unfolding unifiedView_def by auto
  then have "lineNumber l \<le> max (length (sliced_lines beforeCode)) (length (sliced_lines afterCode))"
    and "line x = int (lineNumber l)"
    using computeDiff_lineNumber_le getAnnotationForLine_line by blast+
  then show ?thesis by linarith
qed

lemma splitAfter_found:
  assumes "(n, text, isAdded, Some x) \<in> set (splitAfter annotations beforeCode afterCode)"
  shows "line x \<le> int (max (length (sliced_lines beforeCode)) (length (sliced_lines afterCode)))"
proof -
  from assms obtain i where i: "i < length (sliced_lines afterCode)"
    and found: "getAnnotationForLine annotations (i + 1) = Some x"
    unfolding splitAfter_rows by (auto simp del: One_nat_def) metis
  have "i + 1 \<le> max (length (sliced_lines beforeCode)) (length (sliced_lines afterCode))"
    using i by simp
  moreover have "line x = int (i + 1)" using getAnnotationForLine_line[OF found] by simp
  ultimately show ?thesis by linarith
qed

text \<open>
  Claim C8. Annotation lookup by line number. First part: when exactly one annotation
  has line 4, the lookup for an \<open>added\<close> record with line number 4 returns that
  annotation, and the unified view shows it on that record. Second part: an annotation
  whose line lies beyond the last line number of the sliced texts is returned by no
  lookup of the unified view and by none of the "After" pane of the split view. The
  lookup is a total function: a line without annotation gives \<^const>\<open>None\<close>
  (\<open>undefined\<close>), never an exception.
\<close>

theorem annotation_lookup:
  "(filter (\<lambda>x. line x = 4) annotations = [ann] \<longrightarrow>
      r \<in> set (computeDiff beforeCode afterCode) \<longrightarrow> type r = Added \<longrightarrow> lineNumber r = 4 \<longrightarrow>
      getAnnotationForLine annotations (lineNumber r) = Some ann
      \<and> (r, Some ann) \<in> set (unifiedView annotations beforeCode afterCode))
   \<and> (int (max (length (sliced_lines beforeCode)) (length (sliced_lines afterCode))) < line far \<longrightarrow>
      (\<forall>(l, found) \<in> set (unifiedView annotations beforeCode afterCode). found \<noteq> Some far)
      \<and> (\<forall>(n, text, isAdded, found) \<in> set (splitAfter annotations beforeCode afterCode).
            found \<noteq> Some far))"
proof (intro conjI impI)
  assume one: "filter (\<lambda>x. line x = 4) annotations = [ann]"
    and r: "r \<in> set (computeDiff beforeCode afterCode)" "type r = Added" "lineNumber r = 4"
  have "filter (\<lambda>x. line x = int (lineNumber r)) annotations = [ann]" using one r(3) by simp
  then show found: "getAnnotationForLine annotations (lineNumber r) = Some ann"
    unfolding getAnnotationForLine_def by (rule find_single_match)
  show "(r, Some ann) \<in> set (unifiedView annotations beforeCode afterCode)"
    unfolding unifiedView_def using r(1) found by force
next
  assume far: "int (max (length (sliced_lines beforeCode)) (length (sliced_lines afterCode))) < line far"
  show "\<forall>(l, found) \<in> set (unifiedView annotations beforeCode afterCode). found \<noteq> Some far"
    using far unifiedView_found[of _ far annotations beforeCode afterCode] by fastforce
  show "\<forall>(n, text, isAdded, found) \<in> set (splitAfter annotations beforeCode afterCode).
          found \<noteq> Some far"
    using far splitAfter_found[of _ _ _ far annotations beforeCode afterCode] by fastforce
qed

text \<open>The texts "a", "b", "c" and "a", "b", "c", "d" (one line each): a pure append.\<close>

lemma computeDiff_append_d:
  "computeDiff [CHR ''a'', CHR 0x0A, CHR ''b'', CHR 0x0A, CHR ''c'']
               [CHR ''a'', CHR 0x0A, CHR ''b'', CHR 0x0A, CHR ''c'', CHR 0x0A, CHR ''d''] =
     [\<lparr>type = Unchanged, lineNumber = 1, content = ''a''\<rparr>,
      \<lparr>type = Unchanged, lineNumber = 2, content = ''b''\<rparr>,
      \<lparr>type = Unchanged, lineNumber = 3, content = ''c''\<rparr>,
      \<lparr>type = Added, lineNumber = 4, content = ''d''\<rparr>]"
  by code_simp

lemma sliced_lines_append_d:
  "length (sliced_lines [CHR ''a'', CHR 0x0A, CHR ''b'', CHR 0x0A, CHR ''c'']) = 3"
  "length (sliced_lines [CHR ''a'', CHR 0x0A, CHR ''b'', CHR 0x0A, CHR ''c'', CHR 0x0A, CHR ''d'']) = 4"
  by code_simp+

theorem annotation_lookup_witness:
  "filter (\<lambda>x. line x = 4)
      [\<lparr>line = 4, message = ''m'', ann_type = Info\<rparr>, \<lparr>line = 600, message = ''n'', ann_type = Warning\<rparr>]
     = [\<lparr>line = 4, message = ''m'', ann_type = Info\<rparr>]
   \<and> \<lparr>type = Added, lineNumber = 4, content = ''d''\<rparr>
        \<in> set (computeDiff [CHR ''a'', CHR 0x0A, CHR ''b'', CHR 0x0A, CHR ''c'']
                            [CHR ''a'', CHR 0x0A, CHR ''b'', CHR 0x0A, CHR ''c'', CHR 0x0A, CHR ''d''])
   \<and> getAnnotationForLine
        [\<lparr>line = 4, message = ''m'', ann_type = Info\<rparr>, \<lparr>line = 600, message = ''n'', ann_type = Warning\<rparr>]
        (lineNumber \<lparr>type = Added, lineNumber = 4, content = ''d''\<rparr>)
       = Some \<lparr>line = 4, message = ''m'', ann_type = Info\<rparr>
   \<and> int (max (length (sliced_lines [CHR ''a'', CHR 0x0A, CHR ''b'', CHR 0x0A, CHR ''c'']))
               (length (sliced_lines [CHR ''a'', CHR 0x0A, CHR ''b'', CHR 0x0A, CHR ''c'', CHR 0x0A, CHR ''d''])))
        < line \<lparr>line = 600, message = ''n'', ann_type = Warning\<rparr>
   \<and> (\<exists>row. row \<in> set (unifiedView
          [\<lparr>line = 4, message = ''m'', ann_type = Info\<rparr>, \<lparr>line = 600, message = ''n'', ann_type = Warning\<rparr>]
          [CHR ''a'', CHR 0x0A, CHR ''b'', CHR 0x0A, CHR ''c'']
          [CHR ''a'', CHR 0x0A, CHR ''b'', CHR 0x0A, CHR ''c'', CHR 0x0A, CHR ''d''])
        \<and> snd row \<noteq> Some \<lparr>line = 600, message = ''n'', ann_type = Warning\<rparr>)"
proof -
  let ?anns = "[\<lparr>line = 4, message = ''m'', ann_type = Info\<rparr>,
                \<lparr>line = 600, message = ''n'', ann_type = Warning\<rparr>]"
  let ?b = "[CHR ''a'', CHR 0x0A, CHR ''b'', CHR 0x0A, CHR ''c'']"
  let ?a = "[CHR ''a'', CHR 0x0A, CHR ''b'', CHR 0x0A, CHR ''c'', CHR 0x0A, CHR ''d'']"
  let ?r = "\<lparr>type = Added, lineNumber = 4, content = ''d''\<rparr>"
  have h1: "filter (\<lambda>x. line x = 4) ?anns = [\<lparr>line = 4, message = ''m'', ann_type = Info\<rparr>]"
    by simp
  have h2: "?r \<in> set (computeDiff ?b ?a)" "type ?r = Added" "lineNumber ?r = 4"
    by (simp_all add: computeDiff_append_d)
  have h3: "int (max (length (sliced_lines ?b)) (length (sliced_lines ?a)))
              < line \<lparr>line = 600, message = ''n'', ann_type = Warning\<rparr>"
    by (simp add: sliced_lines_append_d)
  note inst = annotation_lookup[of ?anns "\<lparr>line = 4, message = ''m'', ann_type = Info\<rparr>" ?r ?b ?a
               "\<lparr>line = 600, message = ''n'', ann_type = Warning\<rparr>"]
  from inst h1 h2 have "getAnnotationForLine ?anns (lineNumber ?r)
      = Some \<lparr>line = 4, message = ''m'', ann_type = Info\<rparr>"
    and in_view: "(?r, Some \<lparr>line = 4, message = ''m'', ann_type = Info\<rparr>) \<in> set (unifiedView ?anns ?b ?a)"
    by blast+
  moreover from inst h3 in_view
  have "snd (?r, Some \<lparr>line = 4, message = ''m'', ann_type = Info\<rparr>)
          \<noteq> Some \<lparr>line = 600, message = ''n'', ann_type = Warning\<rparr>"
    by fastforce
  ultimately show ?thesis using h1 h2(1) h3 by blast
qed

end
